theory Spec2Isabelle
  imports Main "HOL-Library.Sublist"
begin

section \<open>Python string primitives\<close>

text \<open>
  The decision logic of \<^verbatim>\<open>src/routes.py\<close> works on Python \<^verbatim>\<open>str\<close> values through
  \<^verbatim>\<open>strip\<close>, \<^verbatim>\<open>split\<close>, \<^verbatim>\<open>join\<close>, \<^verbatim>\<open>lower\<close>, \<^verbatim>\<open>title\<close>, \<^verbatim>\<open>replace\<close> and the
  substring test \<^verbatim>\<open>in\<close>. A string is modelled as a \<open>char list\<close>, a character being a
  code point below 256. The whitespace characters are those that \<^verbatim>\<open>str.isspace\<close> accepts
  there (codes 9 to 13, 28 to 32, 133 and 160); \<^verbatim>\<open>lower\<close> maps the upper-case letters
  (codes 65 to 90, and 192 to 222 without the multiplication sign 215) to the character 32
  places later. \<^verbatim>\<open>title\<close> is applied to canonical keys only; of the lower-case letters it
  knows the ASCII ones.
\<close>

definition is_space :: "char \<Rightarrow> bool" where
  "is_space c =
     (let n = (of_char c :: nat)
      in (9 \<le> n \<and> n \<le> 13) \<or> (28 \<le> n \<and> n \<le> 32) \<or> n = 133 \<or> n = 160)"

definition is_upper :: "char \<Rightarrow> bool" where
  "is_upper c =
     (let n = (of_char c :: nat)
      in (65 \<le> n \<and> n \<le> 90) \<or> (192 \<le> n \<and> n \<le> 222 \<and> n \<noteq> 215))"

definition is_lower :: "char \<Rightarrow> bool" where
  "is_lower c = (let n = (of_char c :: nat) in 97 \<le> n \<and> n \<le> 122)"

definition lower_char :: "char \<Rightarrow> char" where
  "lower_char c = (if is_upper c then char_of ((of_char c :: nat) + 32) else c)"

definition upper_char :: "char \<Rightarrow> char" where
  "upper_char c = (if is_lower c then char_of ((of_char c :: nat) - 32) else c)"

text \<open>\<^verbatim>\<open>s.lower()\<close>\<close>

definition lower :: "string \<Rightarrow> string" where
  "lower s = map lower_char s"

text \<open>\<^verbatim>\<open>s.strip()\<close>: whitespace removed at both ends.\<close>

definition strip :: "string \<Rightarrow> string" where
  "strip s = rev (dropWhile is_space (rev (dropWhile is_space s)))"

text \<open>
  \<^verbatim>\<open>s.split()\<close>: the maximal runs of non-whitespace characters, in order. A character
  that is not whitespace starts a word of its own when the text ends after it or whitespace
  follows, and otherwise joins the word that the rest of the text starts with.
\<close>

fun split_ws :: "string \<Rightarrow> string list" where
  "split_ws [] = []"
| "split_ws (c # cs) =
     (if is_space c then split_ws cs
      else (case cs of
              [] \<Rightarrow> [[c]]
            | d # _ \<Rightarrow>
                if is_space d then [c] # split_ws cs
                else (case split_ws cs of [] \<Rightarrow> [[c]] | w # ws \<Rightarrow> (c # w) # ws)))"

text \<open>\<^verbatim>\<open>sep.join(ws)\<close>\<close>

fun join :: "string \<Rightarrow> string list \<Rightarrow> string" where
  "join sep [] = []"
| "join sep [w] = w"
| "join sep (w # v # ws) = w @ sep @ join sep (v # ws)"

text \<open>\<^verbatim>\<open>needle in hay\<close>: \<open>needle\<close> occurs in \<open>hay\<close> as a contiguous substring.\<close>

fun is_in :: "string \<Rightarrow> string \<Rightarrow> bool" where
  "is_in needle [] = (needle = [])"
| "is_in needle (c # cs) = (prefix needle (c # cs) \<or> is_in needle cs)"

text \<open>
  \<^verbatim>\<open>s.replace(old, new)\<close>: the occurrences of \<open>old\<close> are found from the left, without
  overlap, and each is replaced by \<open>new\<close>. For an empty \<open>old\<close> Python puts \<open>new\<close> before
  every character and at the end.
\<close>

fun replace_from :: "string \<Rightarrow> string \<Rightarrow> string \<Rightarrow> string" where
  "replace_from old new [] = []"
| "replace_from old new (c # cs) =
     (if old \<noteq> [] \<and> prefix old (c # cs)
      then new @ replace_from old new (drop (length old) (c # cs))
      else c # replace_from old new cs)"

definition replace :: "string \<Rightarrow> string \<Rightarrow> string \<Rightarrow> string" where
  "replace s old new =
     (if old = [] then new @ concat (map (\<lambda>c. c # new) s) else replace_from old new s)"

text \<open>
  \<^verbatim>\<open>s.title()\<close>: a cased character is put in upper case when the character before it is
  not cased (or there is none), and in lower case otherwise.
\<close>

fun title_from :: "bool \<Rightarrow> string \<Rightarrow> string" where
  "title_from prev_cased [] = []"
| "title_from prev_cased (c # cs) =
     (if prev_cased then lower_char c else upper_char c)
       # title_from (is_upper c \<or> is_lower c) cs"

definition title :: "string \<Rightarrow> string" where
  "title s = title_from False s"

text \<open>The truth value of an optional string: \<^verbatim>\<open>None\<close> and \<^verbatim>\<open>""\<close> are both false.\<close>

fun truthy :: "string option \<Rightarrow> bool" where
  "truthy None = False"
| "truthy (Some s) = (s \<noteq> [])"

section \<open>The configuration\<close>

text \<open>
  The configuration dictionaries come from \<^verbatim>\<open>json.load\<close> and are iterated in insertion
  order, so each is a list of (key, value) pairs; a lookup by key takes the entry of that
  key (\<open>map_of\<close>). The fallback templates and the display names are only looked up by key.
\<close>

type_synonym intent_keywords = "(string \<times> string list) list"
type_synonym product_normalization = "(string \<times> string list) list"
type_synonym product_map = "string \<rightharpoonup> string"
type_synonym fallbacks = "string \<rightharpoonup> string"

section \<open>The query builder\<close>

text \<open>
  The loop of \<^verbatim>\<open>_build_retrieval_query\<close> over \<^verbatim>\<open>parts + expansion\<close>: the state is the set
  \<^verbatim>\<open>seen\<close> of lower-cased keys and the list \<^verbatim>\<open>ordered\<close> of the terms kept so far.
\<close>

fun dedup_terms :: "string set \<Rightarrow> string list \<Rightarrow> string list \<Rightarrow> string list" where
  "dedup_terms seen ordered [] = ordered"
| "dedup_terms seen ordered (item # items) =
     (let token = strip item; key = lower token
      in if token \<noteq> [] \<and> key \<notin> seen
         then dedup_terms (insert key seen) (ordered @ [token]) items
         else dedup_terms seen ordered items)"

definition generic_expansion :: "string list" where
  "generic_expansion = [''features'', ''eligibility'', ''documents'', ''process'']"

text \<open>The list \<^verbatim>\<open>parts + expansion\<close> that the loop runs over.\<close>

definition candidate_terms ::
  "string \<Rightarrow> string option \<Rightarrow> string option \<Rightarrow> intent_keywords \<Rightarrow> string list" where
  "candidate_terms normalized_text product_name intent intent_keywords =
     (let parts = (if normalized_text \<noteq> [] then [normalized_text] else []);
          parts = (case product_name of
                     Some p \<Rightarrow>
                       if p \<noteq> [] \<and> \<not> is_in (lower p) normalized_text then parts @ [p] else parts
                   | None \<Rightarrow> parts);
          parts = (case intent of
                     Some i \<Rightarrow> if i \<noteq> [] then parts @ [replace i ''_'' '' ''] else parts
                   | None \<Rightarrow> parts);
          expansion = (case intent of
                         Some i \<Rightarrow>
                           if i \<noteq> []
                           then (case map_of intent_keywords i of
                                   Some kws \<Rightarrow> generic_expansion @ kws
                                 | None \<Rightarrow> generic_expansion)
                           else generic_expansion
                       | None \<Rightarrow> generic_expansion)
      in parts @ expansion)"

text \<open>The list \<^verbatim>\<open>ordered\<close> at the end of the loop.\<close>

definition query_terms ::
  "string \<Rightarrow> string option \<Rightarrow> string option \<Rightarrow> intent_keywords \<Rightarrow> string list" where
  "query_terms normalized_text product_name intent intent_keywords =
     dedup_terms {} [] (candidate_terms normalized_text product_name intent intent_keywords)"

definition build_retrieval_query ::
  "string \<Rightarrow> string option \<Rightarrow> string option \<Rightarrow> intent_keywords \<Rightarrow> string" where
  "build_retrieval_query normalized_text product_name intent intent_keywords =
     join '' '' (query_terms normalized_text product_name intent intent_keywords)"

section \<open>The transcript normalizer and the product resolver\<close>

text \<open>The table \<^verbatim>\<open>_STT_FIXES\<close>, in its insertion order.\<close>

definition STT_FIXES :: "(string \<times> string) list" where
  "STT_FIXES = [(''a count'', ''account''), (''a/c'', ''account''), (''a san'', ''asaan'')]"

definition apply_stt_fixes :: "string \<Rightarrow> string" where
  "apply_stt_fixes text =
     foldl (\<lambda>normalized (src, target). replace normalized src target) text STT_FIXES"

text \<open>
  The first three lines of \<^verbatim>\<open>_normalize_transcript\<close>: \<^verbatim>\<open>cleaned\<close>, \<^verbatim>\<open>lowered\<close> and the
  fixes. This is the string that the loop over the product groups starts from.
\<close>

definition normalize_text :: "string \<Rightarrow> string" where
  "normalize_text text =
     (let cleaned = join '' '' (split_ws (strip text));
          lowered = lower cleaned
      in apply_stt_fixes lowered)"

text \<open>\<^verbatim>\<open>product_map.get(canonical) or canonical.replace("_", " ").title()\<close>\<close>

definition display_name :: "product_map \<Rightarrow> string \<Rightarrow> string" where
  "display_name product_map canonical =
     (case product_map canonical of
        Some name \<Rightarrow> if name \<noteq> [] then name else title (replace canonical ''_'' '' '')
      | None \<Rightarrow> title (replace canonical ''_'' '' ''))"

text \<open>The inner loop \<^verbatim>\<open>for v in variants\<close> that rewrites the text.\<close>

definition rewrite_variants :: "string \<Rightarrow> string list \<Rightarrow> string \<Rightarrow> string" where
  "rewrite_variants product_name variants lowered =
     foldl (\<lambda>l v. replace l (lower v) (lower product_name)) lowered variants"

text \<open>
  The loop over \<^verbatim>\<open>product_normalization.items()\<close>. The loop over the variants of a group
  returns at the first variant that is found in the text, and what it returns does not
  depend on which variant that was.
\<close>

fun resolve_product ::
  "product_map \<Rightarrow> string \<Rightarrow> product_normalization \<Rightarrow> string \<times> string option" where
  "resolve_product product_map lowered [] = (lowered, None)"
| "resolve_product product_map lowered ((canonical, variants) # rest) =
     (if list_ex (\<lambda>variant. is_in (lower variant) lowered) variants
      then (let product_name = display_name product_map canonical
            in (rewrite_variants product_name variants lowered, Some product_name))
      else resolve_product product_map lowered rest)"

definition normalize_transcript ::
  "string \<Rightarrow> product_normalization \<Rightarrow> product_map \<Rightarrow> string \<times> string option" where
  "normalize_transcript text product_normalization product_map =
     resolve_product product_map (normalize_text text) product_normalization"

section \<open>The intent detector\<close>

fun detect_intent :: "string \<Rightarrow> intent_keywords \<Rightarrow> string option" where
  "detect_intent normalized_text [] = None"
| "detect_intent normalized_text ((intent, keywords) # rest) =
     (if list_ex (\<lambda>keyword. is_in (lower keyword) normalized_text) keywords
      then Some intent
      else detect_intent normalized_text rest)"

section \<open>The fallback selector\<close>

definition default_reply :: string where
  "default_reply = ''Mazrat, main samajh nahi saka.''"

text \<open>\<^verbatim>\<open>fallbacks.get(key) or rest\<close>\<close>

definition get_or :: "fallbacks \<Rightarrow> string \<Rightarrow> string \<Rightarrow> string" where
  "get_or fallbacks key rest =
     (case fallbacks key of Some v \<Rightarrow> if v \<noteq> [] then v else rest | None \<Rightarrow> rest)"

definition fallback_response ::
  "string \<Rightarrow> string option \<Rightarrow> string option \<Rightarrow> fallbacks \<Rightarrow> string" where
  "fallback_response normalized_text product_name intent fallbacks =
     (let is_account = (is_in ''account'' normalized_text
                        \<or> intent \<in> {Some ''account_benefits'', Some ''account_opening''})
      in if is_account \<and> \<not> truthy product_name
         then get_or fallbacks ''clarify_account'' (get_or fallbacks ''handoff'' default_reply)
         else if intent = Some ''account_opening''
         then get_or fallbacks ''general_opening'' (get_or fallbacks ''handoff'' default_reply)
         else get_or fallbacks ''handoff'' default_reply)"

section \<open>Loading the product catalog\<close>

text \<open>
  What \<^verbatim>\<open>json.load\<close> returns. Numbers are integers here; an object keeps its members in
  order, and \<^verbatim>\<open>json.load\<close> gives each key once.
\<close>

datatype json =
    JNull
  | JBool bool
  | JInt int
  | JStr string
  | JArr "json list"
  | JObj "(string \<times> json) list"

datatype py_error = OSError | JSONDecodeError | AttributeError | TypeError

text \<open>
  The file system as the loader sees it: a path that \<^verbatim>\<open>os.path.exists\<close> accepts has an
  entry, which is what \<^verbatim>\<open>open\<close> followed by \<^verbatim>\<open>json.load\<close> does on it: the parsed
  document, or the exception raised (\<open>OSError\<close> when the file cannot be opened or read,
  \<open>JSONDecodeError\<close> when its content is not JSON).
\<close>

type_synonym filesystem = "string \<rightharpoonup> (py_error + json)"

definition load_json :: "filesystem \<Rightarrow> string \<Rightarrow> py_error + json" where
  "load_json fs path = (case fs path of None \<Rightarrow> Inl OSError | Some outcome \<Rightarrow> outcome)"

text \<open>The truth value of a JSON value in a condition.\<close>

fun json_truthy :: "json \<Rightarrow> bool" where
  "json_truthy JNull = False"
| "json_truthy (JBool b) = b"
| "json_truthy (JInt n) = (n \<noteq> 0)"
| "json_truthy (JStr s) = (s \<noteq> [])"
| "json_truthy (JArr xs) = (xs \<noteq> [])"
| "json_truthy (JObj kvs) = (kvs \<noteq> [])"

text \<open>\<^verbatim>\<open>value.get(key, default)\<close>: only a dictionary has the method.\<close>

fun json_get :: "json \<Rightarrow> string \<Rightarrow> json \<Rightarrow> py_error + json" where
  "json_get (JObj kvs) key dflt = Inr (case map_of kvs key of Some v \<Rightarrow> v | None \<Rightarrow> dflt)"
| "json_get _ key dflt = Inl AttributeError"

text \<open>
  What \<^verbatim>\<open>for item in accounts\<close> runs over: the elements of a list, the keys of a
  dictionary, the characters of a string; anything else is not iterable.
\<close>

fun json_iter :: "json \<Rightarrow> py_error + json list" where
  "json_iter (JArr xs) = Inr xs"
| "json_iter (JObj kvs) = Inr (map (\<lambda>kv. JStr (fst kv)) kvs)"
| "json_iter (JStr s) = Inr (map (\<lambda>c. JStr [c]) s)"
| "json_iter _ = Inl TypeError"

text \<open>
  A value used as a dictionary key: lists and dictionaries are unhashable, and \<^verbatim>\<open>True\<close>
  is the same key as \<^verbatim>\<open>1\<close>.
\<close>

fun json_key :: "json \<Rightarrow> py_error + json" where
  "json_key (JArr xs) = Inl TypeError"
| "json_key (JObj kvs) = Inl TypeError"
| "json_key (JBool b) = Inr (JInt (if b then 1 else 0))"
| "json_key v = Inr v"

text \<open>The loop \<^verbatim>\<open>for item in accounts\<close>, with the dictionary built so far.\<close>

fun add_accounts :: "(json \<rightharpoonup> json) \<Rightarrow> json list \<Rightarrow> py_error + (json \<rightharpoonup> json)" where
  "add_accounts product_map [] = Inr product_map"
| "add_accounts product_map (item # items) =
     (case json_get item ''id'' JNull of
        Inl e \<Rightarrow> Inl e
      | Inr pid \<Rightarrow>
          (case json_get item ''name'' JNull of
             Inl e \<Rightarrow> Inl e
           | Inr name \<Rightarrow>
               if json_truthy pid \<and> json_truthy name
               then (case json_key pid of
                       Inl e \<Rightarrow> Inl e
                     | Inr k \<Rightarrow> add_accounts (product_map(k \<mapsto> name)) items)
               else add_accounts product_map items))"

definition load_product_map :: "filesystem \<Rightarrow> string \<Rightarrow> py_error + (json \<rightharpoonup> json)" where
  "load_product_map fs rag_path =
     (if \<not> suffix ''.json'' (lower rag_path) \<or> fs rag_path = None then Inr Map.empty
      else (case load_json fs rag_path of
              Inl e \<Rightarrow> Inl e
            | Inr data \<Rightarrow>
                (case json_get data ''accounts'' (JArr []) of
                   Inl e \<Rightarrow> Inl e
                 | Inr accounts \<Rightarrow>
                     (case json_iter accounts of
                        Inl e \<Rightarrow> Inl e
                      | Inr items \<Rightarrow> add_accounts Map.empty items))))"

section \<open>Definitions that follow the specification\<close>

text \<open>
  Deduplication as the specification words it: of the terms that are equal when lower-cased
  only the first stays, as it is written.
\<close>

fun keep_first :: "string list \<Rightarrow> string list" where
  "keep_first [] = []"
| "keep_first (t # ts) = t # keep_first (filter (\<lambda>u. lower u \<noteq> lower t) ts)"

text \<open>
  The fallback templates with the empty ones taken out: what the specification calls the
  templates that are set.
\<close>

definition drop_empty :: "fallbacks \<Rightarrow> fallbacks" where
  "drop_empty fallbacks = (\<lambda>key. if truthy (fallbacks key) then fallbacks key else None)"

section \<open>Definitions for the proofs about replacement\<close>

text \<open>
  \<open>overlap_free q ins\<close>: no occurrence of \<open>q\<close> can overlap an inserted copy of \<open>ins\<close>.
  No suffix of \<open>q\<close> is a prefix of \<open>ins\<close> or has \<open>ins\<close> as a prefix, and no suffix of
  \<open>ins\<close> is a prefix of \<open>q\<close> or has \<open>q\<close> as a prefix.
\<close>

definition overlap_free :: "string \<Rightarrow> string \<Rightarrow> bool" where
  "overlap_free q ins =
     (list_all (\<lambda>k. \<not> prefix (drop k q) ins \<and> \<not> prefix ins (drop k q)) [0..<length q]
      \<and> list_all (\<lambda>k. \<not> prefix q (drop k ins) \<and> \<not> prefix (drop k ins) q) [0..<length ins])"

text \<open>
  A text in which the only whitespace is single blanks between words: what
  \<^verbatim>\<open>" ".join(text.strip().split())\<close> leaves unchanged.
\<close>

definition single_spaced :: "string \<Rightarrow> bool" where
  "single_spaced t =
     ((\<forall>c\<in>set t. is_space c \<longrightarrow> c = CHR '' '') \<and> \<not> is_in ''  '' t
      \<and> \<not> prefix '' '' t \<and> (t \<noteq> [] \<longrightarrow> last t \<noteq> CHR '' ''))"

section \<open>Facts about the string primitives\<close>

lemma strip_prefix_dropWhile: "\<exists>zs. dropWhile is_space s = strip s @ zs"
proof -
  let ?t = "dropWhile is_space s"
  have "rev ?t = takeWhile is_space (rev ?t) @ dropWhile is_space (rev ?t)" by simp
  then have "rev (rev ?t) = rev (takeWhile is_space (rev ?t) @ dropWhile is_space (rev ?t))"
    by simp
  then have "?t = rev (dropWhile is_space (rev ?t)) @ rev (takeWhile is_space (rev ?t))"
    by (simp only: rev_rev_ident rev_append)
  then show ?thesis unfolding strip_def by blast
qed

lemma strip_hd:
  assumes "strip s \<noteq> []"
  shows "\<not> is_space (hd (strip s))"
proof -
  obtain zs where z: "dropWhile is_space s = strip s @ zs"
    using strip_prefix_dropWhile by blast
  then have "hd (dropWhile is_space s) = hd (strip s)" using assms by simp
  moreover have "dropWhile is_space s \<noteq> []" using z assms by simp
  ultimately show ?thesis using hd_dropWhile[of is_space s] by simp
qed

lemma strip_last:
  assumes "strip s \<noteq> []"
  shows "\<not> is_space (last (strip s))"
proof -
  let ?u = "dropWhile is_space (rev (dropWhile is_space s))"
  have u: "?u \<noteq> []" using assms by (simp add: strip_def)
  then have "\<not> is_space (hd ?u)" by (rule hd_dropWhile)
  moreover have "last (strip s) = hd ?u" using u by (simp add: strip_def last_rev)
  ultimately show ?thesis by simp
qed

lemma join_nonempty: "ws \<noteq> [] \<Longrightarrow> \<forall>w\<in>set ws. w \<noteq> [] \<Longrightarrow> join sep ws \<noteq> []"
  by (induction sep ws rule: join.induct) auto

section \<open>The query builder: results\<close>

lemma dedup_terms_subseq:
  "\<exists>zs. dedup_terms seen ordered items = ordered @ zs \<and> subseq zs (map strip items)"
proof (induction items arbitrary: seen ordered)
  case Nil
  then show ?case by simp
next
  case (Cons a items)
  show ?case
  proof (cases "strip a \<noteq> [] \<and> lower (strip a) \<notin> seen")
    case True
    obtain zs where
      "dedup_terms (insert (lower (strip a)) seen) (ordered @ [strip a]) items
       = (ordered @ [strip a]) @ zs"
      "subseq zs (map strip items)"
      using Cons.IH by blast
    then show ?thesis using True by (auto simp: Let_def)
  next
    case False
    obtain zs where "dedup_terms seen ordered items = ordered @ zs" "subseq zs (map strip items)"
      using Cons.IH by blast
    then show ?thesis using False by (auto simp: Let_def)
  qed
qed

lemma dedup_terms_nonempty:
  assumes "seen \<subseteq> lower ` set ordered" "\<exists>x\<in>set items. strip x \<noteq> []"
  shows "dedup_terms seen ordered items \<noteq> []"
  using assms
proof (induction items arbitrary: seen ordered)
  case Nil
  then show ?case by simp
next
  case (Cons a items)
  show ?case
  proof (cases "ordered = []")
    case False
    then show ?thesis using dedup_terms_subseq[of seen ordered "a # items"] by auto
  next
    case True
    then have s: "seen = {}" using Cons.prems by simp
    show ?thesis
    proof (cases "strip a = []")
      case True
      then have "dedup_terms seen ordered (a # items) = dedup_terms seen ordered items"
        by (simp add: Let_def)
      moreover have "\<exists>x\<in>set items. strip x \<noteq> []" using True Cons.prems(2) by auto
      ultimately show ?thesis using Cons.IH[OF Cons.prems(1)] by simp
    next
      case False
      then have "dedup_terms seen ordered (a # items)
                 = dedup_terms (insert (lower (strip a)) seen) (ordered @ [strip a]) items"
        using s by (simp add: Let_def)
      then show ?thesis
        using dedup_terms_subseq[of "insert (lower (strip a)) seen" "ordered @ [strip a]" items]
        by auto
    qed
  qed
qed

lemma dedup_terms_distinct:
  assumes "seen = lower ` set ordered" "distinct (map lower ordered)"
  shows "distinct (map lower (dedup_terms seen ordered items))"
  using assms
proof (induction items arbitrary: seen ordered)
  case Nil
  then show ?case by simp
next
  case (Cons a items)
  show ?case
  proof (cases "strip a \<noteq> [] \<and> lower (strip a) \<notin> seen")
    case True
    have 1: "insert (lower (strip a)) seen = lower ` set (ordered @ [strip a])"
      using Cons.prems(1) by auto
    have 2: "distinct (map lower (ordered @ [strip a]))"
      using Cons.prems True by auto
    show ?thesis using True Cons.IH[OF 1 2] by (simp add: Let_def)
  next
    case False
    then show ?thesis using Cons.IH[OF Cons.prems] by (auto simp: Let_def)
  qed
qed

lemma dedup_terms_set:
  "set (dedup_terms seen ordered items)
   \<subseteq> set ordered \<union> {t. t \<noteq> [] \<and> t \<in> strip ` set items}"
proof (induction items arbitrary: seen ordered)
  case Nil
  then show ?case by simp
next
  case (Cons a items)
  show ?case
  proof (cases "strip a \<noteq> [] \<and> lower (strip a) \<notin> seen")
    case True
    then show ?thesis
      using Cons.IH[of "insert (lower (strip a)) seen" "ordered @ [strip a]"]
      by (auto simp: Let_def)
  next
    case False
    then show ?thesis using Cons.IH[of seen ordered] by (auto simp: Let_def)
  qed
qed

lemma dedup_terms_keep_first:
  "dedup_terms seen ordered items
   = ordered @ keep_first (filter (\<lambda>u. u \<noteq> [] \<and> lower u \<notin> seen) (map strip items))"
proof (induction items arbitrary: seen ordered)
  case Nil
  then show ?case by simp
next
  case (Cons a items)
  show ?case
  proof (cases "strip a \<noteq> [] \<and> lower (strip a) \<notin> seen")
    case True
    let ?k = "lower (strip a)"
    have f: "filter (\<lambda>u. lower u \<noteq> ?k) (filter (\<lambda>u. u \<noteq> [] \<and> lower u \<notin> seen) xs)
             = filter (\<lambda>u. u \<noteq> [] \<and> lower u \<notin> insert ?k seen) xs" for xs
      by (induction xs) auto
    have "dedup_terms seen ordered (a # items)
          = dedup_terms (insert ?k seen) (ordered @ [strip a]) items"
      using True by (simp add: Let_def)
    also have "\<dots> = (ordered @ [strip a])
          @ keep_first (filter (\<lambda>u. u \<noteq> [] \<and> lower u \<notin> insert ?k seen) (map strip items))"
      by (rule Cons.IH)
    also have "\<dots> = ordered
          @ keep_first (strip a # filter (\<lambda>u. u \<noteq> [] \<and> lower u \<notin> seen) (map strip items))"
      by (simp only: keep_first.simps f append_assoc append_Cons append_Nil)
    also have "\<dots> = ordered
          @ keep_first (filter (\<lambda>u. u \<noteq> [] \<and> lower u \<notin> seen) (map strip (a # items)))"
      using True by simp
    finally show ?thesis .
  next
    case False
    then show ?thesis using Cons.IH[of seen ordered] by (auto simp: Let_def)
  qed
qed

lemma generic_in_candidates: "''features'' \<in> set (candidate_terms t p i kw)"
  by (simp add: candidate_terms_def generic_expansion_def Let_def split: option.splits)

lemma strip_features: "strip ''features'' = ''features''"
  by (simp add: strip_def is_space_def)

lemma query_terms_nonempty: "query_terms t p i kw \<noteq> []"
proof -
  have "\<exists>x\<in>set (candidate_terms t p i kw). strip x \<noteq> []"
    using generic_in_candidates[of t p i kw] strip_features by force
  then show ?thesis
    unfolding query_terms_def by (intro dedup_terms_nonempty) simp_all
qed

lemma query_terms_not_blank:
  assumes "x \<in> set (query_terms t p i kw)"
  shows "x \<noteq> [] \<and> \<not> is_space (hd x) \<and> \<not> is_space (last x)"
proof -
  have "x \<noteq> [] \<and> x \<in> strip ` set (candidate_terms t p i kw)"
    using assms dedup_terms_set[of "{}" "[]" "candidate_terms t p i kw"]
    unfolding query_terms_def by auto
  then show ?thesis using strip_hd strip_last by auto
qed

text \<open>
  C1 (as the claim states it, refuted): with an empty text, no product and no intent the
  query is not the empty string.
\<close>

theorem build_retrieval_query_empty_inputs_counterexample:
  "build_retrieval_query [] None None [] \<noteq> []"
  by (simp add: build_retrieval_query_def query_terms_def candidate_terms_def
      generic_expansion_def strip_def lower_def is_space_def lower_char_def is_upper_def)

text \<open>
  C1 (amended): the query builder always returns a string, and never the empty one: the
  generic expansion is always appended, so with an empty text, no product and no intent the
  query is the four generic terms, whatever the intent keywords are.
\<close>

theorem build_retrieval_query_empty_inputs:
  "build_retrieval_query [] None None kw = ''features eligibility documents process''
   \<and> build_retrieval_query t p i kw' \<noteq> []"
proof
  show "build_retrieval_query [] None None kw = ''features eligibility documents process''"
    by (simp add: build_retrieval_query_def query_terms_def candidate_terms_def
        generic_expansion_def strip_def lower_def is_space_def lower_char_def is_upper_def)
  show "build_retrieval_query t p i kw' \<noteq> []"
    unfolding build_retrieval_query_def
    using query_terms_nonempty[of t p i kw'] query_terms_not_blank[of _ t p i kw']
    by (intro join_nonempty) auto
qed

text \<open>
  C8: the query is the terms of \<^verbatim>\<open>ordered\<close> joined by single spaces, and for every input
  no two of these terms are equal when lower-cased, no term is empty or starts or ends
  with whitespace (so none is made of whitespace only), and the terms are the trimmed
  candidate terms with, of those equal when lower-cased, only the first kept as written.
\<close>

theorem query_terms_deduplicated:
  "build_retrieval_query t p i kw = join '' '' (query_terms t p i kw)
   \<and> distinct (map lower (query_terms t p i kw))
   \<and> (\<forall>x \<in> set (query_terms t p i kw). x \<noteq> [] \<and> \<not> is_space (hd x) \<and> \<not> is_space (last x))
   \<and> query_terms t p i kw
       = keep_first (filter (\<lambda>u. u \<noteq> []) (map strip (candidate_terms t p i kw)))"
proof (intro conjI)
  show "build_retrieval_query t p i kw = join '' '' (query_terms t p i kw)"
    by (simp add: build_retrieval_query_def)
  show "distinct (map lower (query_terms t p i kw))"
    unfolding query_terms_def by (rule dedup_terms_distinct) simp_all
  show "\<forall>x \<in> set (query_terms t p i kw). x \<noteq> [] \<and> \<not> is_space (hd x) \<and> \<not> is_space (last x)"
    using query_terms_not_blank by blast
  show "query_terms t p i kw
        = keep_first (filter (\<lambda>u. u \<noteq> []) (map strip (candidate_terms t p i kw)))"
    unfolding query_terms_def by (simp add: dedup_terms_keep_first)
qed

theorem query_terms_deduplicated_witness:
  "query_terms ''open account'' (Some ''Asaan Account'') (Some ''account_opening'')
       [(''account_opening'', [''Open Account'', ''  '', '' Documents''])]
     = [''open account'', ''Asaan Account'', ''account opening'', ''features'',
        ''eligibility'', ''documents'', ''process'']
   \<and> distinct (map lower (query_terms ''open account'' (Some ''Asaan Account'')
       (Some ''account_opening'')
       [(''account_opening'', [''Open Account'', ''  '', '' Documents''])]))
   \<and> list_all (\<lambda>x. x \<noteq> [] \<and> \<not> is_space (hd x) \<and> \<not> is_space (last x))
       (query_terms ''open account'' (Some ''Asaan Account'') (Some ''account_opening'')
         [(''account_opening'', [''Open Account'', ''  '', '' Documents''])])"
proof -
  have "query_terms ''open account'' (Some ''Asaan Account'') (Some ''account_opening'')
       [(''account_opening'', [''Open Account'', ''  '', '' Documents''])]
     = [''open account'', ''Asaan Account'', ''account opening'', ''features'',
        ''eligibility'', ''documents'', ''process'']"
    by code_simp
  then show ?thesis
    unfolding list_all_iff
    using query_terms_deduplicated[of "''open account''" "Some ''Asaan Account''"
        "Some ''account_opening''"
        "[(''account_opening'', [''Open Account'', ''  '', '' Documents''])]"]
    by blast
qed

section \<open>The intent detector: results\<close>

lemma is_in_Nil: "is_in [] t"
  by (cases t) simp_all

lemma lower_Nil: "lower [] = []"
  by (simp add: lower_def)

lemma detect_intent_find:
  "detect_intent t kw
   = map_option fst (find (\<lambda>(intent, keywords). \<exists>k\<in>set keywords. is_in (lower k) t) kw)"
  by (induction kw) (auto simp: list_ex_iff)

lemma detect_intent_skip:
  assumes "\<forall>(i, ks) \<in> set pre. \<forall>k\<in>set ks. \<not> is_in (lower k) t"
  shows "detect_intent t (pre @ rest) = detect_intent t rest"
  using assms by (induction pre) (auto simp: list_ex_iff)

text \<open>
  C6: for every text and every intent-keyword configuration, the intent detector returns
  the first intent, in configuration order, that has a keyword whose lower-cased form
  occurs in the text: an intent \<open>a\<close> with a matching keyword is returned when no intent
  declared before it has one, whatever is declared after it and wherever the keywords
  stand in the text; the result is absent when no keyword matches.
\<close>

theorem detect_intent_first_match:
  "(kw = pre @ (a, ks) # post
      \<and> (\<forall>(i, ks') \<in> set pre. \<forall>k\<in>set ks'. \<not> is_in (lower k) t)
      \<and> (\<exists>k\<in>set ks. is_in (lower k) t)
     \<longrightarrow> detect_intent t kw = Some a)
   \<and> ((\<forall>(i, ks') \<in> set kw. \<forall>k\<in>set ks'. \<not> is_in (lower k) t) \<longrightarrow> detect_intent t kw = None)
   \<and> detect_intent t kw
       = map_option fst (find (\<lambda>(intent, keywords). \<exists>k\<in>set keywords. is_in (lower k) t) kw)"
proof (intro conjI impI)
  assume h: "kw = pre @ (a, ks) # post
      \<and> (\<forall>(i, ks') \<in> set pre. \<forall>k\<in>set ks'. \<not> is_in (lower k) t)
      \<and> (\<exists>k\<in>set ks. is_in (lower k) t)"
  then have "detect_intent t kw = detect_intent t ((a, ks) # post)"
    using detect_intent_skip[of pre t "(a, ks) # post"] by simp
  then show "detect_intent t kw = Some a" using h by (simp add: list_ex_iff)
next
  assume "\<forall>(i, ks') \<in> set kw. \<forall>k\<in>set ks'. \<not> is_in (lower k) t"
  then show "detect_intent t kw = None"
    using detect_intent_skip[of kw t "[]"] by simp
next
  show "detect_intent t kw
       = map_option fst (find (\<lambda>(intent, keywords). \<exists>k\<in>set keywords. is_in (lower k) t) kw)"
    by (rule detect_intent_find)
qed

theorem detect_intent_first_match_witness:
  "detect_intent ''account and loan''
     [(''loan_inquiry'', [''Loan'']), (''account_opening'', [''account''])] = Some ''loan_inquiry''
   \<and> detect_intent ''hello''
     [(''loan_inquiry'', [''Loan'']), (''account_opening'', [''account''])] = None"
proof -
  have 1: "[(''loan_inquiry'', [''Loan'']), (''account_opening'', [''account''])]
        = [] @ (''loan_inquiry'', [''Loan'']) # [(''account_opening'', [''account''])]
      \<and> (\<forall>(i, ks') \<in> set []. \<forall>k\<in>set ks'. \<not> is_in (lower k) ''account and loan'')
      \<and> (\<exists>k\<in>set [''Loan'']. is_in (lower k) ''account and loan'')"
    by code_simp
  have 2: "\<forall>(i, ks') \<in> set [(''loan_inquiry'', [''Loan'']), (''account_opening'', [''account''])].
        \<forall>k\<in>set ks'. \<not> is_in (lower k) ''hello''"
    by code_simp
  show ?thesis
    using detect_intent_first_match[of
        "[(''loan_inquiry'', [''Loan'']), (''account_opening'', [''account''])]"
        "[]" "''loan_inquiry''" "[''Loan'']" "[(''account_opening'', [''account''])]"
        "''account and loan''"]
      detect_intent_first_match[of
        "[(''loan_inquiry'', [''Loan'']), (''account_opening'', [''account''])]"
        "[]" "''loan_inquiry''" "[''Loan'']" "[(''account_opening'', [''account''])]"
        "''hello''"]
      1 2
    by blast
qed

text \<open>
  C10: if the keyword list of an intent contains the empty string, the intent detector
  returns an intent for every text, and that intent is this one or one declared before
  it: the empty string occurs in every text.
\<close>

theorem detect_intent_empty_keyword:
  assumes "kw = pre @ (a, ks) # post" "[] \<in> set ks"
  shows "\<exists>j. detect_intent t kw = Some j \<and> j \<in> fst ` set (pre @ [(a, ks)])"
  unfolding assms(1) using assms(2)
proof (induction pre)
  case Nil
  then have "list_ex (\<lambda>k. is_in (lower k) t) ks"
    unfolding list_ex_iff using is_in_Nil lower_Nil by force
  then show ?case by simp
next
  case (Cons g pre)
  then show ?case by (cases g) auto
qed

theorem detect_intent_empty_keyword_witness:
  "\<exists>j. detect_intent ''zzz'' [(''loan'', [''loan'']), (''misc'', [''help'', ''''])] = Some j
       \<and> j \<in> fst ` set ([(''loan'', [''loan''])] @ [(''misc'', [''help'', ''''])])"
  using detect_intent_empty_keyword[of "[(''loan'', [''loan'']), (''misc'', [''help'', ''''])]"
      "[(''loan'', [''loan''])]" "''misc''" "[''help'', '''']" "[]" "''zzz''"]
  by simp

section \<open>The fallback selector: results\<close>

lemma get_or_nonempty: "rest \<noteq> [] \<Longrightarrow> get_or fb k rest \<noteq> []"
  by (simp add: get_or_def split: option.splits)

lemma get_or_drop_empty: "get_or (drop_empty fb) k rest = get_or fb k rest"
  by (cases "fb k") (simp_all add: get_or_def drop_empty_def)

lemma get_or_none: "\<not> truthy (fb k) \<Longrightarrow> get_or fb k rest = rest"
  by (cases "fb k") (simp_all add: get_or_def)

text \<open>
  C7: with the intent \<^verbatim>\<open>account_opening\<close> and a resolved, non-empty product name, the
  fallback selector skips the account-clarification rule (the template
  \<^verbatim>\<open>clarify_account\<close> plays no part) and returns the template \<^verbatim>\<open>general_opening\<close> when
  it is set, else the template \<^verbatim>\<open>handoff\<close> when it is set, else the literal default. A
  template is set when it is present and not the empty string.
\<close>

theorem fallback_response_account_opening_with_product:
  assumes "p \<noteq> []"
  shows "fallback_response t (Some p) (Some ''account_opening'') fb
         = (if truthy (fb ''general_opening'') then the (fb ''general_opening'')
            else if truthy (fb ''handoff'') then the (fb ''handoff'')
            else ''Mazrat, main samajh nahi saka.'')"
  using assms
  by (auto simp: fallback_response_def get_or_def default_reply_def split: option.splits)

theorem fallback_response_account_opening_with_product_witness:
  "fallback_response ''open account'' (Some ''Asaan Account'') (Some ''account_opening'')
     [''clarify_account'' \<mapsto> ''Which account?'', ''general_opening'' \<mapsto> ''How to open'']
   = ''How to open''"
  using fallback_response_account_opening_with_product[of "''Asaan Account''" "''open account''"
      "[''clarify_account'' \<mapsto> ''Which account?'', ''general_opening'' \<mapsto> ''How to open'']"]
  by simp

text \<open>
  C9: the fallback selector always returns a non-empty string, and a template whose value
  is the empty string counts as absent. The result is the first template of the chain
  that is present and not empty: the chain is \<^verbatim>\<open>clarify_account\<close>, \<^verbatim>\<open>handoff\<close> when the
  utterance concerns an account and no product was resolved, else \<^verbatim>\<open>general_opening\<close>,
  \<^verbatim>\<open>handoff\<close> when the intent is \<^verbatim>\<open>account_opening\<close>, else \<^verbatim>\<open>handoff\<close> alone; when no
  template of the chain is present and not empty, the result is the literal default. So
  the result is the same with the empty templates taken out of the configuration.
\<close>

theorem fallback_response_nonempty:
  "fallback_response t p i fb \<noteq> []
   \<and> fallback_response t p i fb = fallback_response t p i (drop_empty fb)
   \<and> ((\<forall>k. \<not> truthy (fb k)) \<longrightarrow> fallback_response t p i fb = ''Mazrat, main samajh nahi saka.'')
   \<and> ((is_in ''account'' t \<or> i = Some ''account_benefits'' \<or> i = Some ''account_opening'')
          \<and> \<not> truthy p
        \<longrightarrow> fallback_response t p i fb
            = (if truthy (fb ''clarify_account'') then the (fb ''clarify_account'')
               else if truthy (fb ''handoff'') then the (fb ''handoff'')
               else ''Mazrat, main samajh nahi saka.''))
   \<and> (\<not> ((is_in ''account'' t \<or> i = Some ''account_benefits'' \<or> i = Some ''account_opening'')
             \<and> \<not> truthy p)
          \<and> i = Some ''account_opening''
        \<longrightarrow> fallback_response t p i fb
            = (if truthy (fb ''general_opening'') then the (fb ''general_opening'')
               else if truthy (fb ''handoff'') then the (fb ''handoff'')
               else ''Mazrat, main samajh nahi saka.''))
   \<and> (\<not> ((is_in ''account'' t \<or> i = Some ''account_benefits'' \<or> i = Some ''account_opening'')
             \<and> \<not> truthy p)
          \<and> i \<noteq> Some ''account_opening''
        \<longrightarrow> fallback_response t p i fb
            = (if truthy (fb ''handoff'') then the (fb ''handoff'')
               else ''Mazrat, main samajh nahi saka.''))"
proof (intro conjI impI)
  have d: "default_reply \<noteq> []" by (simp add: default_reply_def)
  have g: "get_or fb k rest = (if truthy (fb k) then the (fb k) else rest)" for k rest
    by (cases "fb k") (simp_all add: get_or_def)
  show "fallback_response t p i fb \<noteq> []"
    unfolding fallback_response_def Let_def by (simp add: get_or_nonempty d)
  show "fallback_response t p i fb = fallback_response t p i (drop_empty fb)"
    unfolding fallback_response_def Let_def by (simp only: get_or_drop_empty)
  show "fallback_response t p i fb = ''Mazrat, main samajh nahi saka.''"
    if "\<forall>k. \<not> truthy (fb k)"
    using that unfolding fallback_response_def Let_def
    by (simp add: get_or_none default_reply_def)
  show "fallback_response t p i fb
        = (if truthy (fb ''clarify_account'') then the (fb ''clarify_account'')
           else if truthy (fb ''handoff'') then the (fb ''handoff'')
           else ''Mazrat, main samajh nahi saka.'')"
    if "(is_in ''account'' t \<or> i = Some ''account_benefits'' \<or> i = Some ''account_opening'')
        \<and> \<not> truthy p"
    using that unfolding fallback_response_def Let_def g default_reply_def by auto
  show "fallback_response t p i fb
        = (if truthy (fb ''general_opening'') then the (fb ''general_opening'')
           else if truthy (fb ''handoff'') then the (fb ''handoff'')
           else ''Mazrat, main samajh nahi saka.'')"
    if "\<not> ((is_in ''account'' t \<or> i = Some ''account_benefits'' \<or> i = Some ''account_opening'')
           \<and> \<not> truthy p)
        \<and> i = Some ''account_opening''"
    using that unfolding fallback_response_def Let_def g default_reply_def by auto
  show "fallback_response t p i fb
        = (if truthy (fb ''handoff'') then the (fb ''handoff'')
           else ''Mazrat, main samajh nahi saka.'')"
    if "\<not> ((is_in ''account'' t \<or> i = Some ''account_benefits'' \<or> i = Some ''account_opening'')
           \<and> \<not> truthy p)
        \<and> i \<noteq> Some ''account_opening''"
    using that unfolding fallback_response_def Let_def g default_reply_def by auto
qed

theorem fallback_response_nonempty_witness:
  "fallback_response ''my account'' None None (\<lambda>k. Some []) = ''Mazrat, main samajh nahi saka.''
   \<and> fallback_response ''my account'' None None (\<lambda>k. Some []) \<noteq> []
   \<and> fallback_response ''my account'' None None
        [''clarify_account'' \<mapsto> [], ''handoff'' \<mapsto> ''Call us''] = ''Call us''
   \<and> fallback_response ''how to open'' (Some ''Asaan Account'') (Some ''account_opening'')
        [''general_opening'' \<mapsto> [], ''handoff'' \<mapsto> ''Call us''] = ''Call us''
   \<and> fallback_response ''car loan'' None (Some ''loan_inquiry'')
        [''clarify_account'' \<mapsto> ''Which account?'', ''handoff'' \<mapsto> ''Call us''] = ''Call us''"
proof -
  let ?f0 = "(\<lambda>k. Some []) :: fallbacks"
  let ?f1 = "[''clarify_account'' \<mapsto> [], ''handoff'' \<mapsto> ''Call us'']"
  let ?f2 = "[''general_opening'' \<mapsto> [], ''handoff'' \<mapsto> ''Call us'']"
  let ?f3 = "[''clarify_account'' \<mapsto> ''Which account?'', ''handoff'' \<mapsto> ''Call us'']"
  note t0 = fallback_response_nonempty[of "''my account''" None None ?f0]
  note t1 = fallback_response_nonempty[of "''my account''" None None ?f1]
  note t2 = fallback_response_nonempty[of "''how to open''" "Some ''Asaan Account''"
      "Some ''account_opening''" ?f2]
  note t3 = fallback_response_nonempty[of "''car loan''" None "Some ''loan_inquiry''" ?f3]
  have h0: "\<forall>k. \<not> truthy (?f0 k)" by simp
  have h1: "(is_in ''account'' ''my account'' \<or> None = Some ''account_benefits''
            \<or> None = Some ''account_opening'') \<and> \<not> truthy None"
    by simp
  have h2: "\<not> ((is_in ''account'' ''how to open''
                \<or> Some ''account_opening'' = Some ''account_benefits''
                \<or> Some ''account_opening'' = Some ''account_opening'')
              \<and> \<not> truthy (Some ''Asaan Account''))
           \<and> Some ''account_opening'' = Some ''account_opening''"
    by simp
  have h3: "\<not> ((is_in ''account'' ''car loan'' \<or> Some ''loan_inquiry'' = Some ''account_benefits''
               \<or> Some ''loan_inquiry'' = Some ''account_opening'')
              \<and> \<not> truthy None)
           \<and> Some ''loan_inquiry'' \<noteq> Some ''account_opening''"
    by simp
  have a1: "fallback_response ''my account'' None None ?f0 \<noteq> []"
    by (rule t0[THEN conjunct1])
  have a0: "fallback_response ''my account'' None None ?f0 = ''Mazrat, main samajh nahi saka.''"
    by (rule t0[THEN conjunct2, THEN conjunct2, THEN conjunct1, THEN mp, OF h0])
  have b: "fallback_response ''my account'' None None ?f1 = ''Call us''"
    using t1[THEN conjunct2, THEN conjunct2, THEN conjunct2, THEN conjunct1, THEN mp, OF h1]
    by simp
  have c: "fallback_response ''how to open'' (Some ''Asaan Account'')
             (Some ''account_opening'') ?f2 = ''Call us''"
    using t2[THEN conjunct2, THEN conjunct2, THEN conjunct2, THEN conjunct2, THEN conjunct1,
        THEN mp, OF h2]
    by simp
  have e: "fallback_response ''car loan'' None (Some ''loan_inquiry'') ?f3 = ''Call us''"
    using t3[THEN conjunct2, THEN conjunct2, THEN conjunct2, THEN conjunct2, THEN conjunct2,
        THEN mp, OF h3]
    by simp
  show ?thesis by (intro conjI a0 a1 b c e)
qed

section \<open>The product resolver: results\<close>

lemma resolve_product_skip:
  assumes "\<forall>(k, vs) \<in> set pre. \<forall>v\<in>set vs. \<not> is_in (lower v) l"
  shows "resolve_product pm l (pre @ rest) = resolve_product pm l rest"
  using assms by (induction pre) (auto simp: list_ex_iff)

lemma resolve_product_hit:
  assumes "\<exists>v\<in>set vs. is_in (lower v) l"
  shows "resolve_product pm l ((k, vs) # rest)
         = (rewrite_variants (display_name pm k) vs l, Some (display_name pm k))"
  using assms by (simp add: list_ex_iff Let_def)

text \<open>
  C5: when the normalized text contains a synonym of the group \<open>ka\<close> and a synonym of a
  group \<open>kb\<close> that comes later in the configuration, and no group before \<open>ka\<close> has a
  synonym in the text, the resolver selects \<open>ka\<close>: the product is the display name of
  \<open>ka\<close> and only the synonyms of \<open>ka\<close> are rewritten, wherever the synonyms stand in the
  text. The scan stops there: the result is the same with every later group removed.
\<close>

theorem normalize_transcript_group_priority:
  assumes "pn = pre @ (ka, va) # mid @ (kb, vb) # post"
    and "\<forall>(k, vs) \<in> set pre. \<forall>v\<in>set vs. \<not> is_in (lower v) (normalize_text text)"
    and "\<exists>v\<in>set va. is_in (lower v) (normalize_text text)"
    and "\<exists>v\<in>set vb. is_in (lower v) (normalize_text text)"
  shows "normalize_transcript text pn pm
           = (rewrite_variants (display_name pm ka) va (normalize_text text),
              Some (display_name pm ka))
         \<and> normalize_transcript text pn pm = normalize_transcript text (pre @ [(ka, va)]) pm"
proof -
  have "resolve_product pm (normalize_text text) (pre @ (ka, va) # rest)
        = (rewrite_variants (display_name pm ka) va (normalize_text text),
           Some (display_name pm ka))" for rest
    using resolve_product_skip[OF assms(2)] resolve_product_hit[OF assms(3)] by simp
  from this[of "mid @ (kb, vb) # post"] this[of "[]"] show ?thesis
    unfolding normalize_transcript_def assms(1) by simp
qed

theorem normalize_transcript_group_priority_witness:
  "normalize_transcript ''Savings Account or Current Account''
     [(''current_account'', [''current account'']), (''savings_account'', [''savings account''])]
     Map.empty
   = (''savings account or current account'', Some ''Current Account'')"
proof -
  let ?pn = "[(''current_account'', [''current account'']),
              (''savings_account'', [''savings account''])]"
  let ?text = "''Savings Account or Current Account''"
  have n: "normalize_text ?text = ''savings account or current account''" by code_simp
  have 1: "?pn = [] @ (''current_account'', [''current account'']) # []
                 @ (''savings_account'', [''savings account'']) # []" by simp
  have 2: "\<forall>(k, vs) \<in> set []. \<forall>v\<in>set vs. \<not> is_in (lower v) (normalize_text ?text)" by simp
  have 3: "\<exists>v\<in>set [''current account'']. is_in (lower v) (normalize_text ?text)"
    unfolding n by code_simp
  have 4: "\<exists>v\<in>set [''savings account'']. is_in (lower v) (normalize_text ?text)"
    unfolding n by code_simp
  have d: "display_name Map.empty ''current_account'' = ''Current Account''" by code_simp
  have r: "rewrite_variants ''Current Account'' [''current account'']
             ''savings account or current account'' = ''savings account or current account''"
    by code_simp
  show ?thesis
    using normalize_transcript_group_priority[OF 1 2 3 4, of Map.empty] unfolding n d r by simp
qed

section \<open>Loading the product catalog: results\<close>

lemma load_product_map_absent: "fs path = None \<Longrightarrow> load_product_map fs path = Inr Map.empty"
  by (simp add: load_product_map_def)

text \<open>
  C2: the claim is that a catalog file that is absent or malformed gives the empty map and
  never an error. The loader returns the empty map for an absent file
  (\<open>load_product_map_absent\<close>), but for a file that exists and is not JSON the exception
  of \<^verbatim>\<open>json.load\<close> leaves \<^verbatim>\<open>_load_product_map\<close>: nothing catches it.
\<close>

theorem load_product_map_malformed:
  "load_product_map [''bank.json'' \<mapsto> Inl JSONDecodeError] ''bank.json'' = Inl JSONDecodeError"
proof -
  have "suffix ''.json'' (lower ''bank.json'')" by code_simp
  then show ?thesis by (simp add: load_product_map_def load_json_def)
qed

theorem load_product_map_malformed_witness:
  "\<exists>e. load_product_map [''bank.json'' \<mapsto> Inl JSONDecodeError] ''bank.json'' = Inl e"
  using load_product_map_malformed by simp

section \<open>The transcript normalizer: results\<close>

lemma of_count_account: "overlap_free ''a count'' ''account''" by code_simp
lemma of_count_asaan: "overlap_free ''a count'' ''asaan''" by code_simp
lemma of_ac_account: "overlap_free ''a/c'' ''account''" by code_simp
lemma of_ac_asaan: "overlap_free ''a/c'' ''asaan''" by code_simp
lemma of_san_asaan: "overlap_free ''a san'' ''asaan''" by code_simp
lemma of_san_account: "overlap_free ''a san'' ''account''" by code_simp
lemma of_sp2_account: "overlap_free ''  '' ''account''" by code_simp
lemma of_sp2_asaan: "overlap_free ''  '' ''asaan''" by code_simp
lemma of_sp1_asaan: "overlap_free '' '' ''asaan''" by code_simp
lemma of_sp1_account: "overlap_free '' '' ''account''" by code_simp

lemma is_space_lower_char: "is_space (lower_char c) = is_space c"
  by (auto simp: is_space_def lower_char_def is_upper_def Let_def)

lemma lower_char_idem: "lower_char (lower_char c) = lower_char c"
  by (auto simp: lower_char_def is_upper_def Let_def)

lemma lower_char_space: "lower_char (CHR '' '') = CHR '' ''"
  by (simp add: lower_char_def is_upper_def)

lemma lower_idem: "lower (lower s) = lower s"
  by (simp add: lower_def lower_char_idem)

lemma strip_lower: "strip (lower s) = lower (strip s)"
proof -
  have c: "is_space \<circ> lower_char = is_space" by (auto simp: is_space_lower_char)
  have d: "dropWhile is_space (map lower_char xs) = map lower_char (dropWhile is_space xs)"
    for xs by (simp add: dropWhile_map c)
  show ?thesis by (simp only: strip_def lower_def d rev_map)
qed

lemma split_ws_lower: "split_ws (lower s) = map lower (split_ws s)"
proof (induction s rule: split_ws.induct)
  case 1
  then show ?case by (simp add: lower_def)
next
  case (2 c cs)
  show ?case
  proof (cases "is_space c")
    case True
    then show ?thesis using 2(1) by (simp add: lower_def is_space_lower_char)
  next
    case False
    show ?thesis
    proof (cases cs)
      case Nil
      then show ?thesis using False by (simp add: lower_def is_space_lower_char)
    next
      case (Cons d ds)
      show ?thesis
      proof (cases "is_space d")
        case True
        then show ?thesis using False Cons 2(2)[OF False Cons True]
          by (simp add: lower_def is_space_lower_char)
      next
        case nd: False
        then show ?thesis using False Cons 2(3)[OF False Cons nd]
          by (cases "split_ws cs") (auto simp add: lower_def is_space_lower_char)
      qed
    qed
  qed
qed

lemma join_lower: "join '' '' (map lower ws) = lower (join '' '' ws)"
  by (induction "'' ''" ws rule: join.induct) (simp_all add: lower_def lower_char_space)



lemma prefix_append_cases: "prefix a (b @ c) \<Longrightarrow> prefix a b \<or> prefix b a"
  by (auto simp: prefix_append)

lemma is_in_drop: "is_in q (drop n t) \<Longrightarrow> is_in q t"
proof (induction t arbitrary: n)
  case Nil
  then show ?case by simp
next
  case (Cons c cs)
  then show ?case by (cases n) auto
qed

lemma replace_from_same:
  assumes "\<not> is_in old t"
  shows "replace_from old new t = t"
  using assms by (induction t) auto



lemma prefix_replace_from:
  assumes "\<forall>k<length q. \<not> prefix (drop k q) ins \<and> \<not> prefix ins (drop k q)"
    and "prefix q (replace_from old ins t)"
  shows "prefix q t"
  using assms
proof (induction q arbitrary: t)
  case Nil
  then show ?case by simp
next
  case (Cons x q)
  have tl: "\<forall>k<length q. \<not> prefix (drop k q) ins \<and> \<not> prefix ins (drop k q)"
  proof (intro allI impI)
    fix k assume "k < length q"
    then have "Suc k < length (x # q)" by simp
    then show "\<not> prefix (drop k q) ins \<and> \<not> prefix ins (drop k q)"
      using Cons.prems(1)[rule_format, of "Suc k"] by simp
  qed
  have hd: "\<not> prefix (x # q) ins \<and> \<not> prefix ins (x # q)"
    using Cons.prems(1)[rule_format, of 0] by simp
  show ?case
  proof (cases t)
    case Nil
    then show ?thesis using Cons.prems(2) by simp
  next
    case (Cons c cs)
    show ?thesis
    proof (cases "old \<noteq> [] \<and> prefix old (c # cs)")
      case True
      then have "prefix (x # q) (ins @ replace_from old ins (drop (length old) (c # cs)))"
        using Cons.prems(2) Cons by simp
      then show ?thesis using hd prefix_append_cases by blast
    next
      case False
      then have "prefix (x # q) (c # replace_from old ins cs)"
        using Cons.prems(2) Cons by auto
      then have "x = c" "prefix q (replace_from old ins cs)" by simp_all
      then show ?thesis using Cons.IH[OF tl] Cons by simp
    qed
  qed
qed

lemma is_in_append_ins:
  assumes "\<forall>k<length ins. \<not> prefix q (drop k ins) \<and> \<not> prefix (drop k ins) q"
    and "is_in q (ins @ r)"
  shows "is_in q r"
  using assms
proof (induction ins)
  case Nil
  then show ?case by simp
next
  case (Cons a ins)
  have tl: "\<forall>k<length ins. \<not> prefix q (drop k ins) \<and> \<not> prefix (drop k ins) q"
  proof (intro allI impI)
    fix k assume "k < length ins"
    then have "Suc k < length (a # ins)" by simp
    then show "\<not> prefix q (drop k ins) \<and> \<not> prefix (drop k ins) q"
      using Cons.prems(1)[rule_format, of "Suc k"] by simp
  qed
  have hd: "\<not> prefix q (a # ins) \<and> \<not> prefix (a # ins) q"
    using Cons.prems(1)[rule_format, of 0] by simp
  have "\<not> prefix q ((a # ins) @ r)" using hd prefix_append_cases by blast
  then have "is_in q (ins @ r)" using Cons.prems(2) by simp
  then show ?case using Cons.IH[OF tl] by simp
qed

lemma overlap_freeD:
  assumes "overlap_free q ins"
  shows "\<forall>k<length q. \<not> prefix (drop k q) ins \<and> \<not> prefix ins (drop k q)"
    and "\<forall>k<length ins. \<not> prefix q (drop k ins) \<and> \<not> prefix (drop k ins) q"
  using assms by (simp_all add: overlap_free_def list_all_iff)

lemma is_in_replace_from:
  assumes "overlap_free q ins" "is_in q (replace_from old ins t)"
  shows "is_in q t"
  using assms
proof (induction old ins t rule: replace_from.induct)
  case (1 old new)
  then show ?case by simp
next
  case (2 old new c cs)
  show ?case
  proof (cases "old \<noteq> [] \<and> prefix old (c # cs)")
    case True
    then have "is_in q (new @ replace_from old new (drop (length old) (c # cs)))"
      using 2(4) by simp
    then have "is_in q (replace_from old new (drop (length old) (c # cs)))"
      using is_in_append_ins overlap_freeD(2)[OF 2(3)] by blast
    then have "is_in q (drop (length old) (c # cs))"
      using 2(1)[OF True 2(3)] by simp
    then show ?thesis by (rule is_in_drop)
  next
    case False
    then have r: "replace_from old new (c # cs) = c # replace_from old new cs" by auto
    then have "prefix q (replace_from old new (c # cs)) \<or> is_in q (replace_from old new cs)"
      using 2(4) by simp
    then show ?thesis
    proof
      assume "prefix q (replace_from old new (c # cs))"
      then have "prefix q (c # cs)"
        using prefix_replace_from overlap_freeD(1)[OF 2(3)] by blast
      then show ?thesis by simp
    next
      assume "is_in q (replace_from old new cs)"
      then show ?thesis using 2(2)[OF False 2(3)] by simp
    qed
  qed
qed

lemma not_is_in_replace_from:
  assumes "overlap_free old ins" "old \<noteq> []"
  shows "\<not> is_in old (replace_from old ins t)"
  using assms
proof (induction old ins t rule: replace_from.induct)
  case (1 old new)
  then show ?case by simp
next
  case (2 old new c cs)
  show ?case
  proof (cases "old \<noteq> [] \<and> prefix old (c # cs)")
    case True
    have "\<not> is_in old (replace_from old new (drop (length old) (c # cs)))"
      using 2(1)[OF True 2(3) 2(4)] .
    then have "\<not> is_in old (new @ replace_from old new (drop (length old) (c # cs)))"
      using is_in_append_ins overlap_freeD(2)[OF 2(3)] by blast
    then show ?thesis using True by simp
  next
    case False
    then have np: "\<not> prefix old (c # cs)" using 2(4) by simp
    have r: "replace_from old new (c # cs) = c # replace_from old new cs" using False by auto
    have "\<not> prefix old (replace_from old new (c # cs))"
      using prefix_replace_from overlap_freeD(1)[OF 2(3)] np by blast
    moreover have "\<not> is_in old (replace_from old new cs)"
      using 2(2)[OF False 2(3) 2(4)] .
    ultimately show ?thesis unfolding r by simp
  qed
qed

lemma set_replace_from: "set (replace_from old new t) \<subseteq> set t \<union> set new"
proof (induction old new t rule: replace_from.induct)
  case (1 old new)
  then show ?case by simp
next
  case (2 old new c cs)
  show ?case
  proof (cases "old \<noteq> [] \<and> prefix old (c # cs)")
    case True
    have "set (drop (length old) (c # cs)) \<subseteq> set (c # cs)" by (rule set_drop_subset)
    then show ?thesis using True 2(1)[OF True] by auto
  next
    case False
    then show ?thesis using 2(2)[OF False] by auto
  qed
qed

lemma last_replace_from:
  assumes "t \<noteq> []" "new \<noteq> []"
  shows "replace_from old new t \<noteq> []
         \<and> (last (replace_from old new t) = last t \<or> last (replace_from old new t) = last new)"
  using assms
proof (induction old new t rule: replace_from.induct)
  case (1 old new)
  then show ?case by simp
next
  case (2 old new c cs)
  show ?case
  proof (cases "old \<noteq> [] \<and> prefix old (c # cs)")
    case True
    let ?d = "drop (length old) (c # cs)"
    have r: "replace_from old new (c # cs) = new @ replace_from old new ?d" using True by simp
    show ?thesis
    proof (cases "?d = []")
      case True
      then show ?thesis using r 2(4) by simp
    next
      case False
      then have l: "last ?d = last (c # cs)" by (simp add: last_drop)
      have "replace_from old new ?d \<noteq> []
         \<and> (last (replace_from old new ?d) = last ?d \<or> last (replace_from old new ?d) = last new)"
        using 2(1)[OF True False 2(4)] .
      then show ?thesis unfolding r l by simp
    qed
  next
    case False
    then have r: "replace_from old new (c # cs) = c # replace_from old new cs" by auto
    show ?thesis
    proof (cases "cs = []")
      case True
      then show ?thesis using r by simp
    next
      case nc: False
      then show ?thesis using 2(2)[OF False nc 2(4)] r by simp
    qed
  qed
qed

lemma is_space_blank: "is_space (CHR '' '')"
  by (simp add: is_space_def)

lemma join_Cons_Cons: "join sep ((c # w) # ws) = c # join sep (w # ws)"
  by (cases ws) simp_all

lemma join_split_ws:
  assumes "\<forall>c\<in>set t. is_space c \<longrightarrow> c = CHR '' ''" "\<not> is_in ''  '' t"
    "t \<noteq> [] \<longrightarrow> last t \<noteq> CHR '' ''"
  shows "join '' '' (split_ws t) = dropWhile is_space t"
  using assms
proof (induction t rule: split_ws.induct)
  case 1
  then show ?case by simp
next
  case (2 c cs)
  have sub: "\<forall>c\<in>set cs. is_space c \<longrightarrow> c = CHR '' ''" "\<not> is_in ''  '' cs"
    "cs \<noteq> [] \<longrightarrow> last cs \<noteq> CHR '' ''"
    using 2(4,5,6) by auto
  show ?case
  proof (cases "is_space c")
    case True
    then show ?thesis using 2(1)[OF True sub] by simp
  next
    case False
    show ?thesis
    proof (cases cs)
      case Nil
      then show ?thesis using False by simp
    next
      case (Cons d ds)
      show ?thesis
      proof (cases "is_space d")
        case True
        then have d: "d = CHR '' ''" using 2(4) Cons by simp
        have ih: "join '' '' (split_ws cs) = dropWhile is_space cs"
          using 2(2)[OF False Cons True sub] .
        have ds: "ds \<noteq> []" using 2(6) Cons d by auto
        have "\<not> prefix ''  '' (d # ds)" using 2(5) Cons by simp
        then have "hd ds \<noteq> CHR '' ''" using ds d by (cases ds) auto
        then have "\<not> is_space (hd ds)" using 2(4) Cons ds by (cases ds) auto
        then have "dropWhile is_space cs = ds" using Cons True ds by (cases ds) auto
        then have j: "join '' '' (split_ws cs) = ds" using ih by simp
        then have "split_ws cs \<noteq> []" using ds by auto
        then obtain w ws where w: "split_ws cs = w # ws" by (cases "split_ws cs") auto
        have "split_ws (c # cs) = [c] # split_ws cs" using False Cons True by simp
        then have "join '' '' (split_ws (c # cs)) = [c] @ '' '' @ join '' '' (split_ws cs)"
          using w by simp
        then show ?thesis using j False Cons d by simp
      next
        case nd: False
        have ih: "join '' '' (split_ws cs) = dropWhile is_space cs"
          using 2(3)[OF False Cons nd sub] .
        then have j: "join '' '' (split_ws cs) = cs" using Cons nd by simp
        then have "split_ws cs \<noteq> []" using Cons by auto
        then obtain w ws where w: "split_ws cs = w # ws" by (cases "split_ws cs") auto
        have "split_ws (c # cs) = (c # w) # ws" using False Cons nd w by simp
        then have "join '' '' (split_ws (c # cs)) = c # join '' '' (w # ws)"
          by (simp add: join_Cons_Cons)
        then show ?thesis using j w False by simp
      qed
    qed
  qed
qed

lemma single_spaced_strip:
  assumes "single_spaced t"
  shows "strip t = t"
proof (cases t)
  case Nil
  then show ?thesis by (simp add: strip_def)
next
  case (Cons c cs)
  have "\<not> is_space c" using assms Cons by (auto simp: single_spaced_def)
  then have 1: "dropWhile is_space t = t" using Cons by simp
  have tne: "t \<noteq> []" using Cons by simp
  have "\<not> is_space (last t)" using assms tne by (auto simp: single_spaced_def)
  then have "\<not> is_space (hd (rev t))" using tne by (simp add: hd_rev)
  then have 2: "dropWhile is_space (rev t) = rev t" by (cases "rev t") auto
  show ?thesis by (simp add: strip_def 1 2)
qed

lemma single_spaced_clean:
  assumes "single_spaced t"
  shows "join '' '' (split_ws (strip t)) = t"
proof -
  have "join '' '' (split_ws t) = dropWhile is_space t"
    using assms by (intro join_split_ws) (auto simp: single_spaced_def)
  moreover have "dropWhile is_space t = t"
    using assms by (cases t) (auto simp: single_spaced_def)
  ultimately show ?thesis using single_spaced_strip[OF assms] by simp
qed

lemma split_ws_words:
  "\<forall>w\<in>set (split_ws s). w \<noteq> [] \<and> (\<forall>c\<in>set w. \<not> is_space c)"
proof (induction s rule: split_ws.induct)
  case 1
  then show ?case by simp
next
  case (2 c cs)
  show ?case
  proof (cases "is_space c")
    case True
    then show ?thesis using 2(1)[OF True] by simp
  next
    case False
    show ?thesis
    proof (cases cs)
      case Nil
      then show ?thesis using False by simp
    next
      case (Cons d ds)
      show ?thesis
      proof (cases "is_space d")
        case True
        have "split_ws (c # cs) = [c] # split_ws cs" using False Cons True by simp
        then show ?thesis using False 2(2)[OF False Cons True] by simp
      next
        case nd: False
        have ih: "\<forall>w\<in>set (split_ws cs). w \<noteq> [] \<and> (\<forall>c\<in>set w. \<not> is_space c)"
          using 2(3)[OF False Cons nd] .
        show ?thesis
        proof (cases "split_ws cs")
          case Nil
          then have "split_ws (c # cs) = [[c]]" using False Cons nd by simp
          then show ?thesis using False by simp
        next
          case (Cons w ws)
          then have "split_ws (c # cs) = (c # w) # ws" using False \<open>cs = d # ds\<close> nd by simp
          then show ?thesis using False ih Cons by simp
        qed
      qed
    qed
  qed
qed

lemma not_is_in_blanks_word:
  assumes "\<forall>c\<in>set w. c \<noteq> CHR '' ''" "\<not> is_in ''  '' r" "\<not> prefix '' '' r"
  shows "\<not> is_in ''  '' (w @ CHR '' '' # r)"
  using assms
proof (induction w)
  case Nil
  then show ?case by simp
next
  case (Cons a w)
  have "a \<noteq> CHR '' ''" using Cons.prems(1) by simp
  then have "\<not> prefix ''  '' (a # w @ CHR '' '' # r)" by simp
  moreover have "\<not> is_in ''  '' (w @ CHR '' '' # r)"
    using Cons.IH Cons.prems by simp
  ultimately show ?case by simp
qed

lemma not_is_in_blanks_last:
  assumes "\<forall>c\<in>set w. c \<noteq> CHR '' ''"
  shows "\<not> is_in ''  '' w"
  using assms
proof (induction w)
  case Nil
  then show ?case by simp
next
  case (Cons a w)
  have "a \<noteq> CHR '' ''" using Cons.prems(1) by simp
  then have "\<not> prefix ''  '' (a # w)" by simp
  moreover have "\<not> is_in ''  '' w" using Cons.IH Cons.prems by simp
  ultimately show ?case by simp
qed

lemma single_spaced_join:
  assumes "\<forall>w\<in>set ws. w \<noteq> [] \<and> (\<forall>c\<in>set w. \<not> is_space c)"
  shows "single_spaced (join '' '' ws)"
  using assms
proof (induction "'' ''" ws rule: join.induct)
  case 1
  then show ?case by (simp add: single_spaced_def)
next
  case (2 w)
  then have w: "w \<noteq> []" "\<forall>c\<in>set w. \<not> is_space c" by auto
  then have nb: "\<forall>c\<in>set w. c \<noteq> CHR '' ''" using is_space_blank by auto
  have "\<not> prefix '' '' w" using w nb by (cases w) auto
  moreover have "last w \<noteq> CHR '' ''" using w nb last_in_set by blast
  ultimately show ?case using w not_is_in_blanks_last[OF nb] by (simp add: single_spaced_def)
next
  case (3 w v ws)
  then have w: "w \<noteq> []" "\<forall>c\<in>set w. \<not> is_space c" by auto
  then have nb: "\<forall>c\<in>set w. c \<noteq> CHR '' ''" using is_space_blank by auto
  let ?r = "join '' '' (v # ws)"
  have ih: "single_spaced ?r" using 3 by simp
  have "v \<noteq> []" using 3(2) by simp
  then have rne: "?r \<noteq> []" by (cases ws) simp_all
  have j: "join '' '' (w # v # ws) = w @ CHR '' '' # ?r" by simp
  have 1: "\<forall>c\<in>set (w @ CHR '' '' # ?r). is_space c \<longrightarrow> c = CHR '' ''"
    using ih w by (auto simp: single_spaced_def)
  have 2: "\<not> is_in ''  '' (w @ CHR '' '' # ?r)"
    using ih nb by (intro not_is_in_blanks_word) (auto simp: single_spaced_def)
  have 3: "\<not> prefix '' '' (w @ CHR '' '' # ?r)" using w nb by (cases w) auto
  have 4: "last (w @ CHR '' '' # ?r) \<noteq> CHR '' ''"
    using ih rne by (simp add: single_spaced_def)
  show ?case unfolding j single_spaced_def using 1 2 3 4 by blast
qed

lemma single_spaced_cleaned: "single_spaced (join '' '' (split_ws s))"
  by (rule single_spaced_join) (rule split_ws_words)

lemma single_spacedD:
  assumes "single_spaced t"
  shows "\<forall>c\<in>set t. is_space c \<longrightarrow> c = CHR '' ''" "\<not> is_in ''  '' t" "\<not> prefix '' '' t"
    "t \<noteq> [] \<longrightarrow> last t \<noteq> CHR '' ''"
  using assms unfolding single_spaced_def by blast+

lemma single_spaced_replace_from:
  assumes "single_spaced t" "overlap_free ''  '' new" "overlap_free '' '' new"
    "new \<noteq> []" "\<forall>c\<in>set new. \<not> is_space c"
  shows "single_spaced (replace_from old new t)"
proof -
  let ?r = "replace_from old new t"
  note d = single_spacedD[OF assms(1)]
  have 1: "\<forall>c\<in>set ?r. is_space c \<longrightarrow> c = CHR '' ''"
  proof (intro ballI impI)
    fix c assume c: "c \<in> set ?r" "is_space c"
    then have "c \<in> set t \<or> c \<in> set new" using set_replace_from[of old new t] by blast
    then show "c = CHR '' ''" using c(2) d(1) assms(5) by blast
  qed
  have 2: "\<not> is_in ''  '' ?r"
    using is_in_replace_from[OF assms(2)] d(2) by blast
  have 3: "\<not> prefix '' '' ?r"
    using prefix_replace_from[OF overlap_freeD(1)[OF assms(3)]] d(3) by blast
  have 4: "?r \<noteq> [] \<longrightarrow> last ?r \<noteq> CHR '' ''"
  proof (cases "t = []")
    case True
    then show ?thesis by simp
  next
    case False
    have "last new \<in> set new" using assms(4) by (rule last_in_set)
    then have "\<not> is_space (last new)" using assms(5) by blast
    then have n: "last new \<noteq> CHR '' ''" using is_space_blank by metis
    have l: "last t \<noteq> CHR '' ''" using d(4) False by blast
    have "last ?r = last t \<or> last ?r = last new"
      using last_replace_from[OF False assms(4), of old] by blast
    then show ?thesis using n l by metis
  qed
  show ?thesis unfolding single_spaced_def using 1 2 3 4 by blast
qed

lemma apply_stt_fixes_unfold:
  "apply_stt_fixes t
   = replace_from ''a san'' ''asaan''
       (replace_from ''a/c'' ''account'' (replace_from ''a count'' ''account'' t))"
  by (simp add: apply_stt_fixes_def STT_FIXES_def replace_def)

lemma lower_fixed_iff: "lower t = t \<longleftrightarrow> (\<forall>c\<in>set t. lower_char c = c)"
  unfolding lower_def by (induction t) auto

lemma lower_fixed_replace_from:
  assumes "lower t = t" "lower new = new"
  shows "lower (replace_from old new t) = replace_from old new t"
  using assms set_replace_from[of old new t] unfolding lower_fixed_iff by blast

lemma account_chars: "''account'' \<noteq> []" "\<forall>c\<in>set ''account''. \<not> is_space c"
  "lower ''account'' = ''account''"
  by (simp_all add: is_space_def lower_def lower_char_def is_upper_def)

lemma asaan_chars: "''asaan'' \<noteq> []" "\<forall>c\<in>set ''asaan''. \<not> is_space c"
  "lower ''asaan'' = ''asaan''"
  by (simp_all add: is_space_def lower_def lower_char_def is_upper_def)

lemma single_spaced_stt:
  assumes "single_spaced t"
  shows "single_spaced (apply_stt_fixes t)"
proof -
  have a: "single_spaced (replace_from old ''account'' u)" if "single_spaced u" for old u
    using that of_sp2_account of_sp1_account account_chars(1,2)
    by (rule single_spaced_replace_from)
  have b: "single_spaced (replace_from old ''asaan'' u)" if "single_spaced u" for old u
    using that of_sp2_asaan of_sp1_asaan asaan_chars(1,2)
    by (rule single_spaced_replace_from)
  show ?thesis unfolding apply_stt_fixes_unfold by (intro a b assms)
qed

lemma lower_stt:
  assumes "lower t = t"
  shows "lower (apply_stt_fixes t) = apply_stt_fixes t"
  unfolding apply_stt_fixes_unfold
  by (intro lower_fixed_replace_from assms account_chars(3) asaan_chars(3))

lemma stt_free:
  "\<not> is_in ''a count'' (apply_stt_fixes t)"
  "\<not> is_in ''a/c'' (apply_stt_fixes t)"
  "\<not> is_in ''a san'' (apply_stt_fixes t)"
proof -
  let ?t1 = "replace_from ''a count'' ''account'' t"
  let ?t2 = "replace_from ''a/c'' ''account'' ?t1"
  let ?t3 = "replace_from ''a san'' ''asaan'' ?t2"
  have 1: "\<not> is_in ''a count'' ?t1"
    by (rule not_is_in_replace_from[OF of_count_account]) simp
  have "\<not> is_in ''a count'' ?t2"
    using is_in_replace_from[OF of_count_account] 1 by blast
  then show "\<not> is_in ''a count'' (apply_stt_fixes t)"
    unfolding apply_stt_fixes_unfold using is_in_replace_from[OF of_count_asaan] by blast
  have 2: "\<not> is_in ''a/c'' ?t2"
    by (rule not_is_in_replace_from[OF of_ac_account]) simp
  then show "\<not> is_in ''a/c'' (apply_stt_fixes t)"
    unfolding apply_stt_fixes_unfold using is_in_replace_from[OF of_ac_asaan] by blast
  show "\<not> is_in ''a san'' (apply_stt_fixes t)"
    unfolding apply_stt_fixes_unfold
    by (rule not_is_in_replace_from[OF of_san_asaan]) simp
qed

lemma stt_idem: "apply_stt_fixes (apply_stt_fixes t) = apply_stt_fixes t"
proof -
  let ?n = "apply_stt_fixes t"
  have "apply_stt_fixes ?n
        = replace_from ''a san'' ''asaan''
           (replace_from ''a/c'' ''account'' (replace_from ''a count'' ''account'' ?n))"
    by (rule apply_stt_fixes_unfold)
  also have "\<dots> = ?n"
    by (simp only: replace_from_same[OF stt_free(1)] replace_from_same[OF stt_free(2)]
        replace_from_same[OF stt_free(3)])
  finally show ?thesis .
qed

text \<open>
  C4: normalization is idempotent. For every text \<open>x\<close>, normalizing the normalized text
  gives the normalized text again, where normalizing trims, collapses the whitespace runs
  to single blanks, lower-cases and then applies the three fixes of the table in order.
\<close>

theorem normalize_text_idempotent: "normalize_text (normalize_text x) = normalize_text x"
proof -
  let ?y = "lower (join '' '' (split_ws (strip x)))"
  let ?n = "apply_stt_fixes ?y"
  have n: "normalize_text x = ?n" by (simp add: normalize_text_def Let_def)
  have "?y = join '' '' (split_ws (strip (lower x)))"
    by (simp add: strip_lower split_ws_lower join_lower)
  then have "single_spaced ?y" using single_spaced_cleaned by simp
  then have ss: "single_spaced ?n" by (rule single_spaced_stt)
  have "lower ?y = ?y" by (rule lower_idem)
  then have lo: "lower ?n = ?n" by (rule lower_stt)
  have "normalize_text ?n = apply_stt_fixes (lower (join '' '' (split_ws (strip ?n))))"
    by (simp add: normalize_text_def Let_def)
  also have "\<dots> = apply_stt_fixes (lower ?n)" by (simp only: single_spaced_clean[OF ss])
  also have "\<dots> = apply_stt_fixes ?n" by (simp only: lo)
  also have "\<dots> = ?n" by (rule stt_idem)
  finally show ?thesis unfolding n .
qed

section \<open>A synonym as the whole input\<close>









end
